theory Spec2Isabelle
  imports Main
begin

section \<open>The CSS selector builder of \<open>src/06-objects-tasks.js\<close>\<close>

subsection \<open>Data\<close>

text \<open>
  A part is the object literal \<^verbatim>\<open>{ type, value }\<close> pushed by the category methods.
  The tag is a JavaScript string, and so it is here.
\<close>

record part =
  part_type :: string
  part_value :: string

text \<open>
  The fields of a \<^verbatim>\<open>CssSelector\<close> instance: the array \<^verbatim>\<open>parts\<close>, the array
  \<^verbatim>\<open>order\<close> and the \<^verbatim>\<open>Set\<close> \<^verbatim>\<open>usedParts\<close>, of which only \<^verbatim>\<open>has\<close> and
  \<^verbatim>\<open>add\<close> are used.
\<close>

record CssSelector =
  parts :: "part list"
  order :: "string list"
  usedParts :: "string set"

text \<open>Both throws are \<^verbatim>\<open>new Error(message)\<close>; they differ in the message only.\<close>

datatype error = Error string

definition order_message :: string where
  "order_message =
     ''Selector parts should be arranged in the following order: element, id, class, attribute, pseudo-class, pseudo-element''"

definition unique_message :: string where
  "unique_message =
     ''Element, id and pseudo-element should not occur more then one time inside the selector''"

subsection \<open>Array helpers of the language\<close>

text \<open>\<^verbatim>\<open>Array.prototype.indexOf\<close>: the first index holding the element, or \<open>-1\<close>.\<close>

fun indexOf :: "'a list \<Rightarrow> 'a \<Rightarrow> int" where
  "indexOf [] x = - 1"
| "indexOf (y # ys) x =
     (if y = x then 0
      else (let i = indexOf ys x in if i < 0 then - 1 else i + 1))"

text \<open>\<^verbatim>\<open>Array.prototype.includes\<close>.\<close>

definition array_includes :: "'a list \<Rightarrow> 'a \<Rightarrow> bool" where
  "array_includes xs x = (x \<in> set xs)"

subsection \<open>The class \<^verbatim>\<open>CssSelector\<close>\<close>

text \<open>The constructor.\<close>

definition css_order :: "string list" where
  "css_order = [''element'', ''id'', ''class'', ''attr'', ''pseudoClass'', ''pseudoElement'']"

definition new_CssSelector :: CssSelector where
  "new_CssSelector = \<lparr> parts = [], order = css_order, usedParts = {} \<rparr>"

text \<open>
  A method mutates \<^verbatim>\<open>this\<close> and may throw. Its model takes the state of \<^verbatim>\<open>this\<close> and
  returns the outcome together with the state of \<^verbatim>\<open>this\<close> at the moment the method
  returned or threw, so that what a throwing call leaves behind is part of the model.
\<close>

type_synonym 'a outcome = "(error + 'a) \<times> CssSelector"

definition validateOrder :: "string \<Rightarrow> CssSelector \<Rightarrow> unit outcome" where
  "validateOrder partType this =
     (if length (parts this) > 0 \<and>
         indexOf (order this) partType
           < indexOf (order this) (part_type (parts this ! (length (parts this) - 1)))
      then (Inl (Error order_message), this)
      else if array_includes [''element'', ''id'', ''pseudoElement''] partType \<and> partType \<in> usedParts this
      then (Inl (Error unique_message), this)
      else (Inr (), this\<lparr>usedParts := insert partType (usedParts this)\<rparr>))"

text \<open>\<^verbatim>\<open>this.parts.push(p)\<close>.\<close>

definition push :: "part \<Rightarrow> CssSelector \<Rightarrow> CssSelector" where
  "push p this = this\<lparr>parts := parts this @ [p]\<rparr>"

definition element :: "string \<Rightarrow> CssSelector \<Rightarrow> unit outcome" where
  "element v this =
     (case validateOrder ''element'' this of
        (Inl e, this') \<Rightarrow> (Inl e, this')
      | (Inr _, this') \<Rightarrow> (Inr (), push \<lparr>part_type = ''element'', part_value = v\<rparr> this'))"

definition id_sel :: "string \<Rightarrow> CssSelector \<Rightarrow> unit outcome" where
  "id_sel v this =
     (case validateOrder ''id'' this of
        (Inl e, this') \<Rightarrow> (Inl e, this')
      | (Inr _, this') \<Rightarrow> (Inr (), push \<lparr>part_type = ''id'', part_value = ''#'' @ v\<rparr> this'))"

definition class_sel :: "string \<Rightarrow> CssSelector \<Rightarrow> unit outcome" where
  "class_sel v this =
     (case validateOrder ''class'' this of
        (Inl e, this') \<Rightarrow> (Inl e, this')
      | (Inr _, this') \<Rightarrow> (Inr (), push \<lparr>part_type = ''class'', part_value = ''.'' @ v\<rparr> this'))"

definition attr :: "string \<Rightarrow> CssSelector \<Rightarrow> unit outcome" where
  "attr v this =
     (case validateOrder ''attr'' this of
        (Inl e, this') \<Rightarrow> (Inl e, this')
      | (Inr _, this') \<Rightarrow>
          (Inr (), push \<lparr>part_type = ''attr'', part_value = ''['' @ v @ '']''\<rparr> this'))"

definition pseudoClass :: "string \<Rightarrow> CssSelector \<Rightarrow> unit outcome" where
  "pseudoClass v this =
     (case validateOrder ''pseudoClass'' this of
        (Inl e, this') \<Rightarrow> (Inl e, this')
      | (Inr _, this') \<Rightarrow>
          (Inr (), push \<lparr>part_type = ''pseudoClass'', part_value = '':'' @ v\<rparr> this'))"

definition pseudoElement :: "string \<Rightarrow> CssSelector \<Rightarrow> unit outcome" where
  "pseudoElement v this =
     (case validateOrder ''pseudoElement'' this of
        (Inl e, this') \<Rightarrow> (Inl e, this')
      | (Inr _, this') \<Rightarrow>
          (Inr (), push \<lparr>part_type = ''pseudoElement'', part_value = ''::'' @ v\<rparr> this'))"

definition stringify :: "CssSelector \<Rightarrow> string" where
  "stringify this =
     (if length (parts this) = 0 then ''''
      else if part_type (parts this ! 0) = ''combined'' then part_value (parts this ! 0)
      else concat (map part_value (parts this)))"

text \<open>The static method \<^verbatim>\<open>combine\<close>: the state of the instance it creates and returns.\<close>

definition combine :: "CssSelector \<Rightarrow> string \<Rightarrow> CssSelector \<Rightarrow> CssSelector" where
  "combine selector1 combinator selector2 =
     new_CssSelector\<lparr>parts :=
       [\<lparr>part_type = ''combined'',
         part_value = stringify selector1 @ '' '' @ combinator @ '' '' @ stringify selector2\<rparr>]\<rparr>"

subsection \<open>Category calls\<close>

text \<open>The six category methods, named, so that a sequence of calls is a list.\<close>

datatype category = Element | Id | Class | Attr | PseudoClass | PseudoElement

fun call :: "category \<Rightarrow> string \<Rightarrow> CssSelector \<Rightarrow> unit outcome" where
  "call Element v this = element v this"
| "call Id v this = id_sel v this"
| "call Class v this = class_sel v this"
| "call Attr v this = attr v this"
| "call PseudoClass v this = pseudoClass v this"
| "call PseudoElement v this = pseudoElement v this"

text \<open>The tag each category method passes to \<^verbatim>\<open>validateOrder\<close> and stores in its part.\<close>

fun tag :: "category \<Rightarrow> string" where
  "tag Element = ''element''"
| "tag Id = ''id''"
| "tag Class = ''class''"
| "tag Attr = ''attr''"
| "tag PseudoClass = ''pseudoClass''"
| "tag PseudoElement = ''pseudoElement''"

text \<open>The condition of the first throw of \<^verbatim>\<open>validateOrder\<close>, for the tag of a category.\<close>

definition out_of_order :: "category \<Rightarrow> CssSelector \<Rightarrow> bool" where
  "out_of_order c this \<longleftrightarrow>
     parts this \<noteq> [] \<and>
     indexOf (order this) (tag c) < indexOf (order this) (part_type (last (parts this)))"

text \<open>A chain of calls on one instance; a throw ends it.\<close>

fun chain :: "(category \<times> string) list \<Rightarrow> CssSelector \<Rightarrow> unit outcome" where
  "chain [] this = (Inr (), this)"
| "chain ((c, v) # cs) this =
     (case call c v this of
        (Inl e, this') \<Rightarrow> (Inl e, this')
      | (Inr _, this') \<Rightarrow> chain cs this')"

text \<open>The builder states that the constructor and category calls produce, failed calls included.\<close>

inductive reachable :: "CssSelector \<Rightarrow> bool" where
  reachable_new: "reachable new_CssSelector"
| reachable_call: "reachable this \<Longrightarrow> reachable (snd (call c v this))"

subsection \<open>Instances in a store\<close>

text \<open>
  Builders are objects: a method returns \<^verbatim>\<open>this\<close>, and \<^verbatim>\<open>combine\<close> reads two
  instances and creates a third. A store holds the instances; a reference is an index
  into it. Every instance owns its arrays and its set (the constructor and \<^verbatim>\<open>combine\<close>
  create them, and no method hands them out), so the store holds them by value.
\<close>

type_synonym ref = nat
type_synonym store = "CssSelector list"

text \<open>\<^verbatim>\<open>new CssSelector()\<close>.\<close>

definition new_ref :: "store \<Rightarrow> ref \<times> store" where
  "new_ref h = (length h, h @ [new_CssSelector])"

text \<open>A category method called on the instance at \<open>r\<close>; it returns \<^verbatim>\<open>this\<close>.\<close>

definition invoke :: "category \<Rightarrow> ref \<Rightarrow> string \<Rightarrow> store \<Rightarrow> (error + ref) \<times> store" where
  "invoke c r v h =
     (case call c v (h ! r) of
        (Inl e, this') \<Rightarrow> (Inl e, h[r := this'])
      | (Inr _, this') \<Rightarrow> (Inr r, h[r := this']))"

definition stringify_ref :: "ref \<Rightarrow> store \<Rightarrow> string \<times> store" where
  "stringify_ref r h = (stringify (h ! r), h)"

definition combine_ref :: "ref \<Rightarrow> string \<Rightarrow> ref \<Rightarrow> store \<Rightarrow> ref \<times> store" where
  "combine_ref selector1 combinator selector2 h =
     (let (combined, h1) = new_ref h;
          (s1, h2) = stringify_ref selector1 h1;
          (s2, h3) = stringify_ref selector2 h2
      in (combined,
          h3[combined := (h3 ! combined)\<lparr>parts :=
               [\<lparr>part_type = ''combined'',
                 part_value = s1 @ '' '' @ combinator @ '' '' @ s2\<rparr>]\<rparr>]))"

subsection \<open>The facade \<^verbatim>\<open>cssSelectorBuilder\<close>\<close>

definition cssSelectorBuilder_element :: "string \<Rightarrow> store \<Rightarrow> (error + ref) \<times> store" where
  "cssSelectorBuilder_element v h = (let (r, h1) = new_ref h in invoke Element r v h1)"

definition cssSelectorBuilder_id :: "string \<Rightarrow> store \<Rightarrow> (error + ref) \<times> store" where
  "cssSelectorBuilder_id v h = (let (r, h1) = new_ref h in invoke Id r v h1)"

definition cssSelectorBuilder_class :: "string \<Rightarrow> store \<Rightarrow> (error + ref) \<times> store" where
  "cssSelectorBuilder_class v h = (let (r, h1) = new_ref h in invoke Class r v h1)"

definition cssSelectorBuilder_attr :: "string \<Rightarrow> store \<Rightarrow> (error + ref) \<times> store" where
  "cssSelectorBuilder_attr v h = (let (r, h1) = new_ref h in invoke Attr r v h1)"

definition cssSelectorBuilder_pseudoClass :: "string \<Rightarrow> store \<Rightarrow> (error + ref) \<times> store" where
  "cssSelectorBuilder_pseudoClass v h = (let (r, h1) = new_ref h in invoke PseudoClass r v h1)"

definition cssSelectorBuilder_pseudoElement :: "string \<Rightarrow> store \<Rightarrow> (error + ref) \<times> store" where
  "cssSelectorBuilder_pseudoElement v h = (let (r, h1) = new_ref h in invoke PseudoElement r v h1)"

definition cssSelectorBuilder_combine :: "ref \<Rightarrow> string \<Rightarrow> ref \<Rightarrow> store \<Rightarrow> ref \<times> store" where
  "cssSelectorBuilder_combine selector1 combinator selector2 h =
     combine_ref selector1 combinator selector2 h"

text \<open>The facade's entry point of a category.\<close>

fun cssSelectorBuilder :: "category \<Rightarrow> string \<Rightarrow> store \<Rightarrow> (error + ref) \<times> store" where
  "cssSelectorBuilder Element = cssSelectorBuilder_element"
| "cssSelectorBuilder Id = cssSelectorBuilder_id"
| "cssSelectorBuilder Class = cssSelectorBuilder_class"
| "cssSelectorBuilder Attr = cssSelectorBuilder_attr"
| "cssSelectorBuilder PseudoClass = cssSelectorBuilder_pseudoClass"
| "cssSelectorBuilder PseudoElement = cssSelectorBuilder_pseudoElement"

subsection \<open>What the specification says\<close>

text \<open>
  The order index of a category as the specification lists it:
  element=0, id=1, class=2, attribute=3, pseudo-class=4, pseudo-element=5.
\<close>

fun spec_order_index :: "category \<Rightarrow> int" where
  "spec_order_index Element = 0"
| "spec_order_index Id = 1"
| "spec_order_index Class = 2"
| "spec_order_index Attr = 3"
| "spec_order_index PseudoClass = 4"
| "spec_order_index PseudoElement = 5"

text \<open>
  The rendered contribution of a part as the specification describes it: the value wrapped
  with the fixed prefix and suffix of its category.
\<close>

fun spec_rendered :: "category \<Rightarrow> string \<Rightarrow> string" where
  "spec_rendered Element v = v"
| "spec_rendered Id v = ''#'' @ v"
| "spec_rendered Class v = ''.'' @ v"
| "spec_rendered Attr v = ''['' @ v @ '']''"
| "spec_rendered PseudoClass v = '':'' @ v"
| "spec_rendered PseudoElement v = ''::'' @ v"

text \<open>The categories that may occur once only, and the ones that may repeat.\<close>

definition spec_singleton :: "category \<Rightarrow> bool" where
  "spec_singleton c = (c = Element \<or> c = Id \<or> c = PseudoElement)"

text \<open>The part that a call of a category with a value stands for in the specification.\<close>

definition part_of :: "category \<times> string \<Rightarrow> part" where
  "part_of x = \<lparr>part_type = tag (fst x), part_value = spec_rendered (fst x) (snd x)\<rparr>"

text \<open>
  The invariant of the specification: every part has the type of a category, the order
  indices of the parts never decrease, and a singleton category occurs once at most.
\<close>

definition spec_invariant :: "CssSelector \<Rightarrow> bool" where
  "spec_invariant this \<longleftrightarrow>
     (\<forall>p \<in> set (parts this). \<exists>c. part_type p = tag c) \<and>
     sorted (map (\<lambda>p. indexOf css_order (part_type p)) (parts this)) \<and>
     (\<forall>c. spec_singleton c \<longrightarrow> count_list (map part_type (parts this)) (tag c) \<le> 1)"

text \<open>
  The invariant with the book-keeping that makes it inductive: the instance has the
  constructor's \<^verbatim>\<open>order\<close>, and the used set holds the type of every part.
\<close>

definition well_formed :: "CssSelector \<Rightarrow> bool" where
  "well_formed this \<longleftrightarrow>
     order this = css_order \<and> spec_invariant this \<and>
     (\<forall>c. tag c \<in> set (map part_type (parts this)) \<longrightarrow> tag c \<in> usedParts this)"

section \<open>Auxiliary facts\<close>

lemma messages_differ: "order_message \<noteq> unique_message"
  by (simp add: order_message_def unique_message_def)

lemma index_tag: "indexOf css_order (tag c) = spec_order_index c"
  by (cases c) (simp_all add: css_order_def)

lemma index_combined: "indexOf css_order ''combined'' = - 1"
  by (simp add: css_order_def)

lemma index_ge: "- 1 \<le> indexOf xs x"
  by (induction xs) (simp_all add: Let_def)

lemma singleton_tag:
  "array_includes [''element'', ''id'', ''pseudoElement''] (tag c) = spec_singleton c"
  by (cases c) (simp_all add: array_includes_def spec_singleton_def)

lemma tag_inject: "tag c = tag d \<longleftrightarrow> c = d"
  by (cases c; cases d) simp_all

lemma tag_not_combined: "tag c \<noteq> ''combined''"
  by (cases c) simp_all

text \<open>Every category method is \<^verbatim>\<open>validateOrder\<close> with its tag, then a push of its part.\<close>

lemma call_unfold:
  "call c v this =
     (case validateOrder (tag c) this of
        (Inl e, this') \<Rightarrow> (Inl e, this')
      | (Inr _, this') \<Rightarrow>
          (Inr (), push \<lparr>part_type = tag c, part_value = spec_rendered c v\<rparr> this'))"
  by (cases c)
     (simp_all add: element_def id_sel_def class_sel_def attr_def pseudoClass_def pseudoElement_def
        split: prod.splits sum.splits)

lemma call_eq:
  "call c v this =
     (if out_of_order c this then (Inl (Error order_message), this)
      else if spec_singleton c \<and> tag c \<in> usedParts this then (Inl (Error unique_message), this)
      else (Inr (),
            this\<lparr>parts := parts this @ [\<lparr>part_type = tag c, part_value = spec_rendered c v\<rparr>],
                 usedParts := insert (tag c) (usedParts this)\<rparr>))"
  by (cases "parts this = []")
     (simp_all add: call_unfold validateOrder_def singleton_tag push_def out_of_order_def
        last_conv_nth)

lemma call_cases:
  obtains (order_error) "out_of_order c this" "call c v this = (Inl (Error order_message), this)"
  | (unique_error) "\<not> out_of_order c this" "spec_singleton c" "tag c \<in> usedParts this"
      "call c v this = (Inl (Error unique_message), this)"
  | (ok) "\<not> out_of_order c this" "spec_singleton c \<longrightarrow> tag c \<notin> usedParts this"
      "call c v this =
         (Inr (),
          this\<lparr>parts := parts this @ [\<lparr>part_type = tag c, part_value = spec_rendered c v\<rparr>],
               usedParts := insert (tag c) (usedParts this)\<rparr>)"
  using call_eq [of c v this]
  by (cases "out_of_order c this"; cases "spec_singleton c \<and> tag c \<in> usedParts this") auto

lemmas run_simps = call_eq out_of_order_def new_CssSelector_def css_order_def spec_singleton_def

lemma stringify_combine:
  "stringify (combine a c b) = stringify a @ '' '' @ c @ '' '' @ stringify b"
  by (simp add: stringify_def combine_def)

lemma invoke_error:
  assumes "fst (invoke c r v h) = Inl e"
  shows "fst (call c v (h ! r)) = Inl e" and "snd (call c v (h ! r)) = h ! r"
proof -
  show "fst (call c v (h ! r)) = Inl e"
    using assms by (cases c v "h ! r" rule: call_cases) (simp_all add: invoke_def)
  then show "snd (call c v (h ! r)) = h ! r"
    by (cases c v "h ! r" rule: call_cases) simp_all
qed

lemma used_after_call:
  "fst (call c v this) = Inr () \<Longrightarrow> tag c \<in> usedParts (snd (call c v this))"
  by (cases c v this rule: call_cases) simp_all

lemma used_kept: "t \<in> usedParts this \<Longrightarrow> t \<in> usedParts (snd (call c v this))"
  by (cases c v this rule: call_cases) simp_all

lemma chain_Cons_fail:
  "fst (call c v this) = Inl e \<Longrightarrow> chain ((c, v) # cs) this = call c v this"
  by (cases "call c v this") auto

lemma chain_Cons_ok:
  "fst (call c v this) = Inr u \<Longrightarrow> chain ((c, v) # cs) this = chain cs (snd (call c v this))"
  by (cases "call c v this") auto

lemma used_kept_chain: "t \<in> usedParts this \<Longrightarrow> t \<in> usedParts (snd (chain cs this))"
proof (induction cs arbitrary: this)
  case Nil
  then show ?case by simp
next
  case (Cons x cs)
  obtain c v where x: "x = (c, v)" by (cases x)
  show ?case
  proof (cases "fst (call c v this)")
    case (Inl e)
    then show ?thesis
      using used_kept [OF Cons.prems, of c v] by (simp add: x chain_Cons_fail del: chain.simps)
  next
    case (Inr u)
    then show ?thesis
      using Cons.IH [OF used_kept [OF Cons.prems, of c v]]
      by (simp add: x chain_Cons_ok del: chain.simps)
  qed
qed

lemma chain_snoc:
  "chain (cs @ [(c, v)]) this =
     (case chain cs this of (Inl e, s) \<Rightarrow> (Inl e, s) | (Inr _, s) \<Rightarrow> call c v s)"
proof (induction cs arbitrary: this)
  case Nil
  show ?case by (cases "call c v this") (auto split: sum.splits)
next
  case (Cons x cs)
  obtain d w where x: "x = (d, w)" by (cases x)
  show ?case
    by (cases "call d w this") (auto simp: x Cons.IH split: sum.splits)
qed

text \<open>
  A chain on a new builder whose indices never decrease and whose singleton categories
  occur once at most: the state it ends in, in closed form.
\<close>

lemma chain_valid:
  assumes "sorted (map (\<lambda>(c, v). spec_order_index c) calls)"
    and "\<forall>c. spec_singleton c \<longrightarrow> count_list (map fst calls) c \<le> 1"
  shows "chain calls new_CssSelector =
           (Inr (), \<lparr>parts = map part_of calls, order = css_order,
                     usedParts = tag ` fst ` set calls\<rparr>)"
  using assms
proof (induction calls rule: rev_induct)
  case Nil
  show ?case by (simp add: new_CssSelector_def)
next
  case (snoc x calls)
  obtain c v where x: "x = (c, v)" by (cases x)
  let ?s = "\<lparr>parts = map part_of calls, order = css_order, usedParts = tag ` fst ` set calls\<rparr>"
  have sorted_prefix: "sorted (map (\<lambda>(c, v). spec_order_index c) calls)"
    and below: "\<forall>y \<in> set calls. spec_order_index (fst y) \<le> spec_order_index c"
    using snoc.prems(1) by (auto simp: x sorted_append)
  have counts: "\<forall>d. spec_singleton d \<longrightarrow> count_list (map fst calls) d \<le> 1"
  proof (intro allI impI)
    fix d assume "spec_singleton d"
    then have "count_list (map fst (calls @ [x])) d \<le> 1" using snoc.prems(2) by blast
    then show "count_list (map fst calls) d \<le> 1" by (simp split: if_splits)
  qed
  have ih: "chain calls new_CssSelector = (Inr (), ?s)"
    using snoc.IH [OF sorted_prefix counts] .
  have in_order: "\<not> out_of_order c ?s"
  proof (cases "calls = []")
    case True
    then show ?thesis by (simp add: out_of_order_def)
  next
    case False
    then have "last calls \<in> set calls" by simp
    then have "spec_order_index (fst (last calls)) \<le> spec_order_index c"
      using below by blast
    then show ?thesis
      using False by (simp add: out_of_order_def last_map part_of_def index_tag)
  qed
  have fresh: "tag c \<notin> tag ` fst ` set calls" if "spec_singleton c"
  proof
    assume "tag c \<in> tag ` fst ` set calls"
    then have "c \<in> set (map fst calls)" by (force simp: tag_inject)
    then have "0 < count_list (map fst calls) c"
      using count_list_0_iff [of "map fst calls" c] by (cases "count_list (map fst calls) c") auto
    moreover have "count_list (map fst (calls @ [x])) c \<le> 1"
      using snoc.prems(2) that by blast
    ultimately show False by (simp add: x)
  qed
  have "call c v ?s =
      (Inr (), \<lparr>parts = map part_of (calls @ [x]), order = css_order,
                usedParts = tag ` fst ` set (calls @ [x])\<rparr>)"
    using in_order fresh by (auto simp add: call_eq x part_of_def)
  then show ?case by (simp add: x chain_snoc ih)
qed

lemma stringify_simple:
  "stringify \<lparr>parts = map part_of calls, order = ord, usedParts = used\<rparr>
     = concat (map (\<lambda>(c, v). spec_rendered c v) calls)"
proof (cases calls)
  case Nil
  then show ?thesis by (simp add: stringify_def)
next
  case (Cons x xs)
  have "part_value \<circ> part_of = (\<lambda>(c, v). spec_rendered c v)"
    by (auto simp: part_of_def)
  then have "stringify \<lparr>parts = map part_of calls, order = ord, usedParts = used\<rparr>
     = concat (map part_value (map part_of calls))"
    using Cons by (simp add: stringify_def part_of_def tag_not_combined)
  also have "\<dots> = concat (map (\<lambda>(c, v). spec_rendered c v) calls)"
    using \<open>part_value \<circ> part_of = (\<lambda>(c, v). spec_rendered c v)\<close> by simp
  finally show ?thesis .
qed

lemma well_formed_new: "well_formed new_CssSelector"
  by (simp add: well_formed_def spec_invariant_def new_CssSelector_def)

lemma sorted_last_max:
  "sorted (map f xs) \<Longrightarrow> x \<in> set xs \<Longrightarrow> f x \<le> f (last xs)"
proof (induction xs rule: rev_induct)
  case Nil
  then show ?case by simp
next
  case (snoc y ys)
  then show ?case by (auto simp: sorted_append)
qed

lemma well_formed_call:
  assumes "well_formed this"
  shows "well_formed (snd (call c v this))"
proof (cases c v this rule: call_cases)
  case order_error
  then show ?thesis using assms by simp
next
  case unique_error
  then show ?thesis using assms by simp
next
  case ok
  let ?ix = "\<lambda>p. indexOf css_order (part_type p)"
  have ord: "order this = css_order"
    and tags: "\<forall>p \<in> set (parts this). \<exists>c. part_type p = tag c"
    and srt: "sorted (map ?ix (parts this))"
    and once: "\<forall>c. spec_singleton c \<longrightarrow> count_list (map part_type (parts this)) (tag c) \<le> 1"
    and used: "\<forall>c. tag c \<in> set (map part_type (parts this)) \<longrightarrow> tag c \<in> usedParts this"
    using assms by (simp_all add: well_formed_def spec_invariant_def)
  have below: "?ix p \<le> indexOf css_order (tag c)" if "p \<in> set (parts this)" for p
  proof -
    have ne: "parts this \<noteq> []" using that by auto
    have "?ix p \<le> ?ix (last (parts this))"
      using sorted_last_max [OF srt that] .
    also have "\<dots> \<le> indexOf css_order (tag c)"
      using ok(1) ne by (simp add: out_of_order_def ord)
    finally show ?thesis .
  qed
  have srt': "sorted (map ?ix (parts this @ [\<lparr>part_type = tag c, part_value = spec_rendered c v\<rparr>]))"
    using srt below by (auto simp: sorted_append)
  have once': "count_list (map part_type (parts this @ [\<lparr>part_type = tag c, part_value = spec_rendered c v\<rparr>])) (tag d) \<le> 1"
    if "spec_singleton d" for d
  proof (cases "d = c")
    case True
    then have "tag c \<notin> usedParts this" using ok(2) that by simp
    then have "tag c \<notin> set (map part_type (parts this))" using used by blast
    then have "count_list (map part_type (parts this)) (tag c) = 0"
      using count_list_0_iff [of "map part_type (parts this)" "tag c"] by blast
    then show ?thesis using True by simp
  next
    case False
    then show ?thesis using once that by (simp add: tag_inject)
  qed
  show ?thesis
    unfolding well_formed_def spec_invariant_def
    apply (simp only: ok(3) snd_conv)
    using ord tags srt' once' used by auto
qed

lemma reachable_well_formed: "reachable this \<Longrightarrow> well_formed this"
  by (induction rule: reachable.induct) (simp_all add: well_formed_new well_formed_call)

lemma repeat_ok:
  assumes "\<not> spec_singleton c" "parts this \<noteq> []" "part_type (last (parts this)) = tag c"
  shows "chain (replicate n (c, v)) this =
     (Inr (), this\<lparr>parts := parts this @ replicate n (part_of (c, v)),
                   usedParts := (if n = 0 then usedParts this else insert (tag c) (usedParts this))\<rparr>)"
  using assms
proof (induction n arbitrary: this)
  case 0
  then show ?case by simp
next
  case (Suc n)
  let ?s = "this\<lparr>parts := parts this @ [part_of (c, v)], usedParts := insert (tag c) (usedParts this)\<rparr>"
  have c: "call c v this = (Inr (), ?s)"
    using Suc.prems by (simp add: call_eq out_of_order_def part_of_def)
  have "chain (replicate n (c, v)) ?s =
     (Inr (), ?s\<lparr>parts := parts ?s @ replicate n (part_of (c, v)),
                   usedParts := (if n = 0 then usedParts ?s else insert (tag c) (usedParts ?s))\<rparr>)"
    by (rule Suc.IH) (simp_all add: Suc.prems part_of_def)
  then show ?case
    by (simp add: c replicate_app_Cons_same)
qed

lemma count_replicate_part:
  "count_list (map part_type (replicate n p)) (part_type p) = n"
  by (induction n) simp_all


lemma new_ref_eq: "new_ref h = (length h, h @ [new_CssSelector])"
  by (simp add: new_ref_def)

lemma call_new:
  "call c v new_CssSelector =
     (Inr (), \<lparr>parts = [part_of (c, v)], order = css_order, usedParts = {tag c}\<rparr>)"
  by (simp add: call_eq out_of_order_def new_CssSelector_def part_of_def)

lemma facade_eq:
  "cssSelectorBuilder c v h = (let (r, h1) = new_ref h in invoke c r v h1)"
  by (cases c)
     (simp_all add: cssSelectorBuilder_element_def cssSelectorBuilder_id_def
        cssSelectorBuilder_class_def cssSelectorBuilder_attr_def
        cssSelectorBuilder_pseudoClass_def cssSelectorBuilder_pseudoElement_def)


lemma combine_ref_eq:
  assumes "s1 < length h" "s2 < length h"
  shows "combine_ref s1 comb s2 h = (length h, h @ [combine (h ! s1) comb (h ! s2)])"
  using assms
  by (simp add: combine_ref_def new_ref_def stringify_ref_def combine_def nth_append)

lemma invoke_other: "r' \<noteq> r \<Longrightarrow> snd (invoke c r v h) ! r' = h ! r'"
  by (cases "call c v (h ! r)") (auto simp: invoke_def split: sum.splits)

section \<open>The claims\<close>

text \<open>
  C2. For all builders \<open>a\<close> and \<open>b\<close>, simple or combined, and every combinator string \<open>c\<close>,
  the builder that \<^verbatim>\<open>combine(a, c, b)\<close> returns stringifies to
  \<^verbatim>\<open>a.stringify() + " " + c + " " + b.stringify()\<close>, with one space on each side of \<open>c\<close>
  whatever \<open>c\<close> holds, and so for nested calls on either side. The last conjunct is the
  nested example of the source's comment, whose combinator \<^verbatim>\<open>' '\<close> gives three spaces.
\<close>

theorem combine_stringify:
  "stringify (combine a c b) = stringify a @ '' '' @ c @ '' '' @ stringify b
   \<and> stringify (combine (combine a c b) d e)
       = (stringify a @ '' '' @ c @ '' '' @ stringify b) @ '' '' @ d @ '' '' @ stringify e
   \<and> stringify (combine a c (combine b d e))
       = stringify a @ '' '' @ c @ '' '' @ (stringify b @ '' '' @ d @ '' '' @ stringify e)
   \<and> stringify (combine
        (snd (chain [(Element, ''div''), (Id, ''main''), (Class, ''container''),
                     (Class, ''draggable'')] new_CssSelector))
        ''+''
        (combine (snd (chain [(Element, ''table''), (Id, ''data'')] new_CssSelector)) ''~''
          (combine
            (snd (chain [(Element, ''tr''), (PseudoClass, ''nth-of-type(even)'')] new_CssSelector))
            '' ''
            (snd (chain [(Element, ''td''), (PseudoClass, ''nth-of-type(even)'')] new_CssSelector)))))
       = ''div#main.container.draggable + table#data ~ tr:nth-of-type(even)   td:nth-of-type(even)''"
proof -
  have "stringify (combine
        (snd (chain [(Element, ''div''), (Id, ''main''), (Class, ''container''),
                     (Class, ''draggable'')] new_CssSelector))
        ''+''
        (combine (snd (chain [(Element, ''table''), (Id, ''data'')] new_CssSelector)) ''~''
          (combine
            (snd (chain [(Element, ''tr''), (PseudoClass, ''nth-of-type(even)'')] new_CssSelector))
            '' ''
            (snd (chain [(Element, ''td''), (PseudoClass, ''nth-of-type(even)'')] new_CssSelector)))))
       = ''div#main.container.draggable + table#data ~ tr:nth-of-type(even)   td:nth-of-type(even)''"
    by (simp add: combine_def run_simps stringify_def)
  then show ?thesis
    by (simp only: stringify_combine)
qed

text \<open>
  C3. Whenever a builder has at least one part and the order index of the called category
  is strictly less than the index that \<^verbatim>\<open>order.indexOf\<close> gives the type of the part
  appended last, the call throws the ordering error and the builder is as it was before
  the call, so no part is appended. This holds of every builder with the constructor's
  \<^verbatim>\<open>order\<close>, the non-combined ones among them. In particular the second call of
  \<^verbatim>\<open>id('x').element('y')\<close> throws it.
\<close>

theorem order_violation_raises:
  "(order this = css_order \<and> parts this \<noteq> [] \<and>
      spec_order_index c < indexOf css_order (part_type (last (parts this)))
      \<longrightarrow> call c v this = (Inl (Error order_message), this))
   \<and> fst (chain [(Id, ''x'')] new_CssSelector) = Inr ()
   \<and> call Element ''y'' (snd (chain [(Id, ''x'')] new_CssSelector))
       = (Inl (Error order_message), snd (chain [(Id, ''x'')] new_CssSelector))"
proof -
  have "call c v this = (Inl (Error order_message), this)"
    if "order this = css_order" "parts this \<noteq> []"
      "spec_order_index c < indexOf css_order (part_type (last (parts this)))"
    using that by (simp add: call_eq out_of_order_def index_tag)
  moreover have "fst (chain [(Id, ''x'')] new_CssSelector) = Inr ()"
    by (simp add: run_simps)
  moreover have "call Element ''y'' (snd (chain [(Id, ''x'')] new_CssSelector))
       = (Inl (Error order_message), snd (chain [(Id, ''x'')] new_CssSelector))"
    by (simp add: run_simps)
  ultimately show ?thesis by blast
qed

theorem order_violation_raises_witness:
  "call Element ''y''
     \<lparr>parts = [\<lparr>part_type = ''id'', part_value = ''#x''\<rparr>], order = css_order,
      usedParts = {''id''}\<rparr>
   = (Inl (Error order_message),
      \<lparr>parts = [\<lparr>part_type = ''id'', part_value = ''#x''\<rparr>], order = css_order,
       usedParts = {''id''}\<rparr>)"
  using order_violation_raises
    [of "\<lparr>parts = [\<lparr>part_type = ''id'', part_value = ''#x''\<rparr>], order = css_order,
          usedParts = {''id''}\<rparr>" Element "''y''"]
  by (simp add: css_order_def)

text \<open>
  C5. A category call that throws leaves the builder exactly as it was before the call,
  parts and used categories alike, and what it throws is one of the two errors; in the
  store, nothing at all has changed. So the caller may catch the error and go on: after
  \<^verbatim>\<open>id('x')\<close> the call \<^verbatim>\<open>element('y')\<close> throws, and \<^verbatim>\<open>class('z')\<close> then succeeds and the
  builder stringifies to \<^verbatim>\<open>#x.z\<close>.
\<close>

theorem failed_call_keeps_state:
  "(fst (call c v this) = Inl e \<longrightarrow>
      snd (call c v this) = this \<and> (e = Error order_message \<or> e = Error unique_message))
   \<and> (fst (invoke c r v h) = Inl e \<longrightarrow> snd (invoke c r v h) = h)
   \<and> fst (call Id ''x'' new_CssSelector) = Inr ()
   \<and> fst (call Element ''y'' (snd (call Id ''x'' new_CssSelector))) = Inl (Error order_message)
   \<and> fst (call Class ''z'' (snd (call Element ''y'' (snd (call Id ''x'' new_CssSelector)))))
       = Inr ()
   \<and> stringify
        (snd (call Class ''z'' (snd (call Element ''y'' (snd (call Id ''x'' new_CssSelector))))))
       = ''#x.z''"
proof -
  have "snd (call c v this) = this \<and> (e = Error order_message \<or> e = Error unique_message)"
    if "fst (call c v this) = Inl e"
    using that by (cases c v this rule: call_cases) auto
  moreover have "snd (invoke c r v h) = h" if "fst (invoke c r v h) = Inl e"
  proof -
    have "snd (invoke c r v h) = h[r := snd (call c v (h ! r))]"
      by (simp add: invoke_def split: prod.splits sum.splits)
    then show ?thesis using invoke_error(2) [OF that] by simp
  qed
  moreover have "fst (call Id ''x'' new_CssSelector) = Inr ()"
    by (simp add: run_simps)
  moreover have
    "fst (call Element ''y'' (snd (call Id ''x'' new_CssSelector))) = Inl (Error order_message)"
    by (simp add: run_simps)
  moreover have
    "fst (call Class ''z'' (snd (call Element ''y'' (snd (call Id ''x'' new_CssSelector)))))
       = Inr ()"
    by (simp add: run_simps)
  moreover have
    "stringify
        (snd (call Class ''z'' (snd (call Element ''y'' (snd (call Id ''x'' new_CssSelector))))))
       = ''#x.z''"
    by (simp add: run_simps stringify_def)
  ultimately show ?thesis by blast
qed

theorem failed_call_keeps_state_witness:
  "fst (call Id ''b'' (snd (call Id ''a'' new_CssSelector))) = Inl (Error unique_message)
   \<and> snd (call Id ''b'' (snd (call Id ''a'' new_CssSelector))) = snd (call Id ''a'' new_CssSelector)
   \<and> fst (invoke Id 0 ''b'' [snd (call Id ''a'' new_CssSelector)]) = Inl (Error unique_message)
   \<and> snd (invoke Id 0 ''b'' [snd (call Id ''a'' new_CssSelector)])
       = [snd (call Id ''a'' new_CssSelector)]"
proof -
  have a: "fst (call Id ''b'' (snd (call Id ''a'' new_CssSelector))) = Inl (Error unique_message)"
    by (simp add: run_simps)
  have b: "fst (invoke Id 0 ''b'' [snd (call Id ''a'' new_CssSelector)])
             = Inl (Error unique_message)"
    by (simp add: invoke_def run_simps)
  show ?thesis
    using a b
      failed_call_keeps_state [of Id "''b''" "snd (call Id ''a'' new_CssSelector)"
        "Error unique_message" 0 "[snd (call Id ''a'' new_CssSelector)]"]
    by blast
qed

text \<open>
  C8. \<^verbatim>\<open>stringify\<close> has no throwing branch: it is a total function to strings, each of
  its two array reads being guarded by the length test. It changes nothing in the store,
  a second call returns what the first returned, and a builder with no parts stringifies
  to the empty string.
\<close>

theorem stringify_pure:
  "snd (stringify_ref r h) = h
   \<and> fst (stringify_ref r (snd (stringify_ref r h))) = fst (stringify_ref r h)
   \<and> fst (stringify_ref r h) = stringify (h ! r)
   \<and> stringify (this\<lparr>parts := []\<rparr>) = ''''
   \<and> stringify new_CssSelector = ''''"
  by (simp add: stringify_ref_def stringify_def new_CssSelector_def)

text \<open>
  C9. On a builder that \<^verbatim>\<open>combine\<close> returned, the type \<^verbatim>\<open>combined\<close> of the opaque part
  has index \<open>-1\<close>, so the ordering test of a category call never fires; the used set is
  empty, so the uniqueness test does not fire either. The call succeeds, its part is
  appended after the opaque part, and \<^verbatim>\<open>stringify\<close> still returns the combined string,
  without the appended part.
\<close>

theorem call_on_combined:
  "indexOf (order (combine a comb b)) (part_type (last (parts (combine a comb b)))) = - 1
   \<and> \<not> out_of_order c (combine a comb b)
   \<and> validateOrder (tag c) (combine a comb b)
       = (Inr (), (combine a comb b)\<lparr>usedParts := {tag c}\<rparr>)
   \<and> fst (call c v (combine a comb b)) = Inr ()
   \<and> parts (snd (call c v (combine a comb b)))
       = parts (combine a comb b) @ [\<lparr>part_type = tag c, part_value = spec_rendered c v\<rparr>]
   \<and> stringify (snd (call c v (combine a comb b))) = stringify (combine a comb b)
   \<and> stringify (snd (call c v (combine a comb b)))
       = stringify a @ '' '' @ comb @ '' '' @ stringify b"
proof -
  let ?k = "combine a comb b"
  have ord: "order ?k = css_order" and used: "usedParts ?k = {}"
    and ps: "parts ?k = [\<lparr>part_type = ''combined'',
         part_value = stringify a @ '' '' @ comb @ '' '' @ stringify b\<rparr>]"
    by (simp_all add: combine_def new_CssSelector_def)
  have i: "indexOf (order ?k) (part_type (last (parts ?k))) = - 1"
    by (simp add: ord ps index_combined)
  have o: "\<not> out_of_order c ?k"
    using index_ge [of css_order "tag c"] by (simp add: out_of_order_def i) (simp add: ord)
  have v: "validateOrder (tag c) ?k = (Inr (), ?k\<lparr>usedParts := {tag c}\<rparr>)"
    using o by (simp add: validateOrder_def used out_of_order_def last_conv_nth ps)
  have c: "call c v ?k =
      (Inr (), ?k\<lparr>parts := parts ?k @ [\<lparr>part_type = tag c, part_value = spec_rendered c v\<rparr>],
               usedParts := insert (tag c) (usedParts ?k)\<rparr>)"
    using o by (simp add: call_eq used)
  have s: "stringify (snd (call c v ?k)) = stringify ?k"
    by (simp add: c) (simp add: stringify_def ps)
  show ?thesis
    using i o v s by (simp add: c stringify_combine)
qed

text \<open>
  C1. A chain of category calls on a new builder whose order indices never decrease and
  in which element, id and pseudo-element occur once at most: no call throws, and
  \<^verbatim>\<open>stringify\<close> returns the values, each wrapped as the specification says for its
  category, concatenated in call order with nothing between them. So
  \<^verbatim>\<open>id('main').class('container').class('editable')\<close> gives \<^verbatim>\<open>#main.container.editable\<close>.
\<close>

theorem valid_chain_stringify:
  "(sorted (map (\<lambda>(c, v). spec_order_index c) calls) \<and>
    (\<forall>c. spec_singleton c \<longrightarrow> count_list (map fst calls) c \<le> 1)
    \<longrightarrow> fst (chain calls new_CssSelector) = Inr ()
        \<and> stringify (snd (chain calls new_CssSelector))
            = concat (map (\<lambda>(c, v). spec_rendered c v) calls))
   \<and> fst (chain [(Id, ''main''), (Class, ''container''), (Class, ''editable'')] new_CssSelector)
       = Inr ()
   \<and> stringify
        (snd (chain [(Id, ''main''), (Class, ''container''), (Class, ''editable'')] new_CssSelector))
       = ''#main.container.editable''"
proof -
  have "fst (chain calls new_CssSelector) = Inr ()
        \<and> stringify (snd (chain calls new_CssSelector))
            = concat (map (\<lambda>(c, v). spec_rendered c v) calls)"
    if "sorted (map (\<lambda>(c, v). spec_order_index c) calls)"
      "\<forall>c. spec_singleton c \<longrightarrow> count_list (map fst calls) c \<le> 1"
    by (simp only: chain_valid [OF that] fst_conv snd_conv stringify_simple)
  moreover have
    "fst (chain [(Id, ''main''), (Class, ''container''), (Class, ''editable'')] new_CssSelector)
       = Inr ()"
    by (simp add: run_simps)
  moreover have
    "stringify
        (snd (chain [(Id, ''main''), (Class, ''container''), (Class, ''editable'')] new_CssSelector))
       = ''#main.container.editable''"
    by (simp add: run_simps stringify_def)
  ultimately show ?thesis by blast
qed

theorem valid_chain_stringify_witness:
  "sorted (map (\<lambda>(c, v). spec_order_index c)
       [(Element, ''a''), (Attr, ''href$=\".png\"''), (PseudoClass, ''focus'')])
   \<and> count_list (map fst [(Element, ''a''), (Attr, ''href$=\".png\"''), (PseudoClass, ''focus'')])
         Element = 1
   \<and> count_list (map fst [(Element, ''a''), (Attr, ''href$=\".png\"''), (PseudoClass, ''focus'')])
         Id = 0
   \<and> count_list (map fst [(Element, ''a''), (Attr, ''href$=\".png\"''), (PseudoClass, ''focus'')])
         PseudoElement = 0
   \<and> fst (chain [(Element, ''a''), (Attr, ''href$=\".png\"''), (PseudoClass, ''focus'')]
        new_CssSelector) = Inr ()
   \<and> stringify
        (snd (chain [(Element, ''a''), (Attr, ''href$=\".png\"''), (PseudoClass, ''focus'')]
           new_CssSelector))
       = ''a[href$=\".png\"]:focus''"
proof -
  have a: "sorted (map (\<lambda>(c, v). spec_order_index c)
       [(Element, ''a''), (Attr, ''href$=\".png\"''), (PseudoClass, ''focus'')])"
    by simp
  have b: "\<forall>c. spec_singleton c \<longrightarrow>
         count_list (map fst [(Element, ''a''), (Attr, ''href$=\".png\"''), (PseudoClass, ''focus'')]) c
           \<le> 1"
    by simp
  show ?thesis
    using a b
      valid_chain_stringify
        [of "[(Element, ''a''), (Attr, ''href$=\".png\"''), (PseudoClass, ''focus'')]"]
    by simp
qed

text \<open>
  C4, as the code has it. \<^verbatim>\<open>validateOrder\<close> tests the order before the uniqueness, so a
  second call of a singleton category that comes after a part of a later category throws
  the ordering error and not the uniqueness error: the last call of
  \<^verbatim>\<open>element('a').id('b').element('c')\<close> does.
\<close>

theorem repeated_singleton_order_error:
  "fst (chain [(Element, ''a''), (Id, ''b'')] new_CssSelector) = Inr ()
   \<and> fst (call Element ''c'' (snd (chain [(Element, ''a''), (Id, ''b'')] new_CssSelector)))
        = Inl (Error order_message)
   \<and> fst (call Element ''c'' (snd (chain [(Element, ''a''), (Id, ''b'')] new_CssSelector)))
        \<noteq> Inl (Error unique_message)"
  by (simp add: run_simps) (simp add: order_message_def unique_message_def)

text \<open>
  C4, amended. Once element, id or pseudo-element has been called with success on a
  builder, then after any further chain of calls a call of that same category throws and
  leaves the builder as it was: it throws the ordering error when the order test fires,
  which is when the index of the category is strictly less than that of the part
  appended last, and the uniqueness error otherwise. Called again at once it throws the
  uniqueness error, as the second call of \<^verbatim>\<open>id('a').id('b')\<close> does.
\<close>

theorem repeated_singleton_raises:
  "(spec_singleton c \<and> fst (call c v this) = Inr () \<longrightarrow>
      call c w (snd (chain cs (snd (call c v this))))
        = (Inl (Error (if out_of_order c (snd (chain cs (snd (call c v this))))
                       then order_message else unique_message)),
           snd (chain cs (snd (call c v this)))))
   \<and> (spec_singleton c \<and> fst (call c v this) = Inr () \<longrightarrow>
        call c w (snd (call c v this)) = (Inl (Error unique_message), snd (call c v this)))
   \<and> fst (call Id ''a'' new_CssSelector) = Inr ()
   \<and> fst (call Id ''b'' (snd (call Id ''a'' new_CssSelector))) = Inl (Error unique_message)"
proof -
  have "call c w (snd (chain cs (snd (call c v this))))
        = (Inl (Error (if out_of_order c (snd (chain cs (snd (call c v this))))
                       then order_message else unique_message)),
           snd (chain cs (snd (call c v this))))"
    if "spec_singleton c" "fst (call c v this) = Inr ()"
  proof -
    have "tag c \<in> usedParts (snd (chain cs (snd (call c v this))))"
      using used_after_call [OF that(2)] by (rule used_kept_chain)
    then show ?thesis using that(1) by (simp add: call_eq)
  qed
  moreover have
    "call c w (snd (call c v this)) = (Inl (Error unique_message), snd (call c v this))"
    if "spec_singleton c" "fst (call c v this) = Inr ()"
    using that by (cases c v this rule: call_cases) (simp_all add: call_eq out_of_order_def)
  moreover have "fst (call Id ''a'' new_CssSelector) = Inr ()"
    by (simp add: run_simps)
  moreover have
    "fst (call Id ''b'' (snd (call Id ''a'' new_CssSelector))) = Inl (Error unique_message)"
    by (simp add: run_simps)
  ultimately show ?thesis by blast
qed

theorem repeated_singleton_raises_witness:
  "spec_singleton Element
   \<and> fst (call Element ''a'' new_CssSelector) = Inr ()
   \<and> call Element ''c'' (snd (chain [(Id, ''b'')] (snd (call Element ''a'' new_CssSelector))))
      = (Inl (Error order_message),
         snd (chain [(Id, ''b'')] (snd (call Element ''a'' new_CssSelector))))
   \<and> call Element ''c'' (snd (call Element ''a'' new_CssSelector))
      = (Inl (Error unique_message), snd (call Element ''a'' new_CssSelector))"
proof -
  have a: "spec_singleton Element"
    by (simp add: spec_singleton_def)
  have b: "fst (call Element ''a'' new_CssSelector) = Inr ()"
    by (simp add: run_simps)
  have c: "out_of_order Element
            (snd (chain [(Id, ''b'')] (snd (call Element ''a'' new_CssSelector))))"
    by (simp add: run_simps)
  show ?thesis
    using a b c
      repeated_singleton_raises
        [of Element "''a''" new_CssSelector "''c''" "[(Id, ''b'')]"]
    by simp
qed

text \<open>
  C6. Every builder state that the constructor and category calls reach satisfies the
  invariant: its parts have the types of the six categories, their order indices
  (element=0, id=1, class=2, attribute=3, pseudo-class=4, pseudo-element=5) never
  decrease, and element, id and pseudo-element occur once at most; the index that the
  instance's \<^verbatim>\<open>order\<close> array gives a category is the one listed. A category call keeps
  the invariant. Class, attribute and pseudo-class repeat without limit: after a
  successful call of one of them, any number \<open>n\<close> of further calls of it succeed, and the
  builder then holds more than \<open>n\<close> parts of that category.
\<close>

theorem reachable_invariant:
  "indexOf css_order (tag c) = spec_order_index c
   \<and> (reachable this \<longrightarrow> spec_invariant this \<and> spec_invariant (snd (call c v this)))
   \<and> (well_formed this \<longrightarrow> well_formed (snd (call c v this)))
   \<and> (\<not> spec_singleton c \<and> fst (call c v this) = Inr () \<longrightarrow>
        fst (chain (replicate n (c, w)) (snd (call c v this))) = Inr ()
        \<and> n < count_list
                (map part_type (parts (snd (chain (replicate n (c, w)) (snd (call c v this))))))
                (tag c))"
proof -
  have "spec_invariant this \<and> spec_invariant (snd (call c v this))" if "reachable this"
  proof -
    have "reachable (snd (call c v this))" using that by (rule reachable_call)
    then show ?thesis
      using that reachable_well_formed by (simp add: well_formed_def)
  qed
  moreover have "well_formed (snd (call c v this))" if "well_formed this"
    using that by (rule well_formed_call)
  moreover have "fst (chain (replicate n (c, w)) (snd (call c v this))) = Inr ()
        \<and> n < count_list
                (map part_type (parts (snd (chain (replicate n (c, w)) (snd (call c v this))))))
                (tag c)"
    if "\<not> spec_singleton c" "fst (call c v this) = Inr ()"
  proof -
    let ?s = "snd (call c v this)"
    have ps: "parts ?s = parts this @ [part_of (c, v)]"
      using that(2) by (cases c v this rule: call_cases) (simp_all add: part_of_def)
    then have ne: "parts ?s \<noteq> []" and lst: "part_type (last (parts ?s)) = tag c"
      by (simp_all add: part_of_def)
    have t: "part_type (part_of (c, w)) = tag c" by (simp add: part_of_def)
    have "count_list (map part_type (replicate n (part_of (c, w)))) (tag c) = n"
      using count_replicate_part [of n "part_of (c, w)"] by (simp only: t)
    then show ?thesis
      by (simp add: repeat_ok [OF that(1) ne lst] ps part_of_def)
  qed
  ultimately show ?thesis using index_tag [of c] by blast
qed

theorem reachable_invariant_witness:
  "reachable (snd (call Class ''k'' (snd (call Id ''main'' new_CssSelector))))
   \<and> spec_invariant (snd (call Class ''k'' (snd (call Id ''main'' new_CssSelector))))
   \<and> well_formed new_CssSelector
   \<and> well_formed (snd (call Element ''div'' new_CssSelector))
   \<and> \<not> spec_singleton Class
   \<and> fst (call Class ''a'' new_CssSelector) = Inr ()
   \<and> fst (chain (replicate 3 (Class, ''b'')) (snd (call Class ''a'' new_CssSelector))) = Inr ()
   \<and> 3 < count_list
            (map part_type
               (parts (snd (chain (replicate 3 (Class, ''b'')) (snd (call Class ''a'' new_CssSelector))))))
            (tag Class)"
proof -
  have a: "reachable (snd (call Class ''k'' (snd (call Id ''main'' new_CssSelector))))"
    by (intro reachable_call reachable_new)
  have b: "well_formed new_CssSelector"
    by (simp add: well_formed_def spec_invariant_def new_CssSelector_def)
  have c: "\<not> spec_singleton Class"
    by (simp add: spec_singleton_def)
  have d: "fst (call Class ''a'' new_CssSelector) = Inr ()"
    by (simp add: run_simps)
  show ?thesis
    using a b c d
      reachable_invariant
        [of Class "snd (call Class ''k'' (snd (call Id ''main'' new_CssSelector)))" "''z''" 0 "''z''"]
      reachable_invariant [of Element new_CssSelector "''div''" 0 "''z''"]
      reachable_invariant [of Class new_CssSelector "''a''" 3 "''b''"]
    by blast
qed


text \<open>
  C7. The facade's entry point of a category creates a new builder and calls the matching
  method on it with the value: it returns the reference of the new instance, whose state
  is the one that the method leaves a new builder in (one part, one used category), the
  call never throws, and the instance stringifies to the wrapped value. The facade's
  \<^verbatim>\<open>combine\<close> is the static \<^verbatim>\<open>combine\<close> of the class.
\<close>

theorem facade_is_new_then_call:
  "cssSelectorBuilder c v h = (let (r, h1) = new_ref h in invoke c r v h1)
   \<and> cssSelectorBuilder c v h = (Inr (length h), h @ [snd (call c v new_CssSelector)])
   \<and> call c v new_CssSelector
       = (Inr (), \<lparr>parts = [part_of (c, v)], order = css_order, usedParts = {tag c}\<rparr>)
   \<and> stringify (snd (call c v new_CssSelector)) = spec_rendered c v
   \<and> cssSelectorBuilder_combine a comb b h = combine_ref a comb b h"
proof -
  have "cssSelectorBuilder c v h = (Inr (length h), h @ [snd (call c v new_CssSelector)])"
    by (simp add: facade_eq new_ref_eq invoke_def call_new)
  moreover have "stringify (snd (call c v new_CssSelector)) = spec_rendered c v"
    by (simp add: call_new stringify_def part_of_def tag_not_combined)
  ultimately show ?thesis
    using facade_eq call_new by (simp add: cssSelectorBuilder_combine_def)
qed


text \<open>
  C10. \<^verbatim>\<open>combine\<close> on two instances of the store returns a reference that no instance
  had before, so it differs from both arguments; every instance that existed is as it
  was, the two arguments among them; and the new instance holds one part made from the
  \<^verbatim>\<open>stringify()\<close> results of the arguments. The new instance shares no state with them:
  a later category call on it leaves the arguments as they were, and a later call on an
  argument leaves it as it was.
\<close>

theorem combine_frame:
  "s1 < length h \<and> s2 < length h \<longrightarrow>
     fst (combine_ref s1 comb s2 h) = length h
     \<and> fst (combine_ref s1 comb s2 h) \<noteq> s1 \<and> fst (combine_ref s1 comb s2 h) \<noteq> s2
     \<and> length (snd (combine_ref s1 comb s2 h)) = Suc (length h)
     \<and> (\<forall>r < length h. snd (combine_ref s1 comb s2 h) ! r = h ! r)
     \<and> snd (combine_ref s1 comb s2 h) ! s1 = h ! s1
     \<and> snd (combine_ref s1 comb s2 h) ! s2 = h ! s2
     \<and> snd (combine_ref s1 comb s2 h) ! fst (combine_ref s1 comb s2 h)
         = \<lparr>parts = [\<lparr>part_type = ''combined'',
                       part_value = stringify (h ! s1) @ '' '' @ comb @ '' '' @ stringify (h ! s2)\<rparr>],
            order = css_order, usedParts = {}\<rparr>
     \<and> snd (invoke c (fst (combine_ref s1 comb s2 h)) v (snd (combine_ref s1 comb s2 h))) ! s1 = h ! s1
     \<and> snd (invoke c (fst (combine_ref s1 comb s2 h)) v (snd (combine_ref s1 comb s2 h))) ! s2 = h ! s2
     \<and> snd (invoke c s1 v (snd (combine_ref s1 comb s2 h))) ! fst (combine_ref s1 comb s2 h)
         = snd (combine_ref s1 comb s2 h) ! fst (combine_ref s1 comb s2 h)
     \<and> snd (invoke c s2 v (snd (combine_ref s1 comb s2 h))) ! fst (combine_ref s1 comb s2 h)
         = snd (combine_ref s1 comb s2 h) ! fst (combine_ref s1 comb s2 h)"
proof
  assume a: "s1 < length h \<and> s2 < length h"
  then have e: "combine_ref s1 comb s2 h = (length h, h @ [combine (h ! s1) comb (h ! s2)])"
    by (simp add: combine_ref_eq)
  have n1: "s1 \<noteq> length h" and n2: "s2 \<noteq> length h" using a by simp_all
  show "fst (combine_ref s1 comb s2 h) = length h
     \<and> fst (combine_ref s1 comb s2 h) \<noteq> s1 \<and> fst (combine_ref s1 comb s2 h) \<noteq> s2
     \<and> length (snd (combine_ref s1 comb s2 h)) = Suc (length h)
     \<and> (\<forall>r < length h. snd (combine_ref s1 comb s2 h) ! r = h ! r)
     \<and> snd (combine_ref s1 comb s2 h) ! s1 = h ! s1
     \<and> snd (combine_ref s1 comb s2 h) ! s2 = h ! s2
     \<and> snd (combine_ref s1 comb s2 h) ! fst (combine_ref s1 comb s2 h)
         = \<lparr>parts = [\<lparr>part_type = ''combined'',
                       part_value = stringify (h ! s1) @ '' '' @ comb @ '' '' @ stringify (h ! s2)\<rparr>],
            order = css_order, usedParts = {}\<rparr>
     \<and> snd (invoke c (fst (combine_ref s1 comb s2 h)) v (snd (combine_ref s1 comb s2 h))) ! s1 = h ! s1
     \<and> snd (invoke c (fst (combine_ref s1 comb s2 h)) v (snd (combine_ref s1 comb s2 h))) ! s2 = h ! s2
     \<and> snd (invoke c s1 v (snd (combine_ref s1 comb s2 h))) ! fst (combine_ref s1 comb s2 h)
         = snd (combine_ref s1 comb s2 h) ! fst (combine_ref s1 comb s2 h)
     \<and> snd (invoke c s2 v (snd (combine_ref s1 comb s2 h))) ! fst (combine_ref s1 comb s2 h)
         = snd (combine_ref s1 comb s2 h) ! fst (combine_ref s1 comb s2 h)"
    using a n1 n2
    by (simp add: e invoke_other nth_append combine_def new_CssSelector_def)
qed

theorem combine_frame_witness:
  "(0::nat) < length [snd (call Element ''a'' new_CssSelector), snd (call Id ''b'' new_CssSelector)]
   \<and> (1::nat) < length [snd (call Element ''a'' new_CssSelector), snd (call Id ''b'' new_CssSelector)]
   \<and> fst (combine_ref 0 ''>'' 1
        [snd (call Element ''a'' new_CssSelector), snd (call Id ''b'' new_CssSelector)]) = 2
   \<and> snd (combine_ref 0 ''>'' 1
        [snd (call Element ''a'' new_CssSelector), snd (call Id ''b'' new_CssSelector)]) ! 0
       = snd (call Element ''a'' new_CssSelector)
   \<and> snd (combine_ref 0 ''>'' 1
        [snd (call Element ''a'' new_CssSelector), snd (call Id ''b'' new_CssSelector)]) ! 1
       = snd (call Id ''b'' new_CssSelector)
   \<and> stringify (snd (combine_ref 0 ''>'' 1
        [snd (call Element ''a'' new_CssSelector), snd (call Id ''b'' new_CssSelector)])
         ! fst (combine_ref 0 ''>'' 1
            [snd (call Element ''a'' new_CssSelector), snd (call Id ''b'' new_CssSelector)]))
       = ''a > #b''"
proof -
  let ?h = "[snd (call Element ''a'' new_CssSelector), snd (call Id ''b'' new_CssSelector)]"
  have a: "(0::nat) < length ?h \<and> (1::nat) < length ?h"
    by simp
  note frame = combine_frame [of 0 ?h 1 "''>''" Class "''k''", rule_format, OF a]
  have k: "fst (combine_ref 0 ''>'' 1 ?h) = 2"
    using frame by simp
  have old: "snd (combine_ref 0 ''>'' 1 ?h) ! 0 = ?h ! 0"
    "snd (combine_ref 0 ''>'' 1 ?h) ! 1 = ?h ! 1"
    using frame by blast+
  have new: "snd (combine_ref 0 ''>'' 1 ?h) ! fst (combine_ref 0 ''>'' 1 ?h)
         = \<lparr>parts = [\<lparr>part_type = ''combined'',
                       part_value = stringify (?h ! 0) @ '' '' @ ''>'' @ '' '' @ stringify (?h ! 1)\<rparr>],
            order = css_order, usedParts = {}\<rparr>"
    using frame by blast
  have c: "stringify (?h ! 0) = ''a''"
    by (simp add: run_simps stringify_def)
  have d: "stringify (?h ! 1) = ''#b''"
    by (simp add: run_simps stringify_def)
  have "stringify (snd (combine_ref 0 ''>'' 1 ?h) ! fst (combine_ref 0 ''>'' 1 ?h)) = ''a > #b''"
    by (simp only: new c d) (simp add: stringify_def)
  then show ?thesis
    using a k old by simp
qed

end
